theory Spec2Isabelle
  imports Main "HOL-Library.Char_ord" "HOL-Library.List_Lexorder" "HOL-Library.Product_Lexorder"
begin

section \<open>The extension loader: \<open>loadCustomApp\<close> and \<open>loadCustomAgent\<close>\<close>

text \<open>
  A JavaScript call runs on a mutable state and either returns a value or throws; what it
  wrote to the state before throwing stays written. A call is therefore a function from
  the state to a result (\<open>Inl\<close> the thrown value, \<open>Inr\<close> the returned one) paired
  with the state it leaves.
\<close>

type_synonym ('e, 'a, 's) js = "'s \<Rightarrow> ('e + 'a) \<times> 's"

text \<open>A load unit is \<open>{ path }\<close>: the loader reads nothing else of it.\<close>

record load_unit =
  path :: string

text \<open>
  The two functions are mixed into the loader object and call three things that are not
  theirs: \<open>this.getLoadUnits()\<close> and \<open>this.loadFile(filepath)\<close>, methods of the
  loader defined elsewhere, and \<open>path.join\<close> of the Node runtime. They are the fields of
  the receiver \<open>this\<close>, each arbitrary: \<open>getLoadUnits\<close> and \<open>loadFile\<close> may write to
  the state and may throw.
\<close>

record ('e, 'r, 's) loader =
  getLoadUnits :: "('e, load_unit list, 's) js"
  loadFile :: "string \<Rightarrow> ('e, 'r, 's) js"
  join :: "string \<Rightarrow> string \<Rightarrow> string"

text \<open>
  \<open>Array.prototype.forEach\<close>: the callback is called on the elements from the first to
  the last, each call on the state the one before left; what the callback returns is
  dropped; a callback that throws ends the iteration and the exception leaves \<open>forEach\<close>.
  The array is the list \<open>getLoadUnits\<close> returned: the callbacks are taken not to change
  it while \<open>forEach\<close> runs.
\<close>

fun forEach :: "('a \<Rightarrow> ('e, 'r, 's) js) \<Rightarrow> 'a list \<Rightarrow> ('e, unit, 's) js" where
  "forEach f [] s = (Inr (), s)"
| "forEach f (x # xs) s =
     (case f x s of
        (Inl e, s') \<Rightarrow> (Inl e, s')
      | (Inr r, s') \<Rightarrow> forEach f xs s')"

definition loadCustomApp :: "('e, 'r, 's) loader \<Rightarrow> ('e, unit, 's) js" where
  "loadCustomApp this s =
     (case getLoadUnits this s of
        (Inl e, s') \<Rightarrow> (Inl e, s')
      | (Inr units, s') \<Rightarrow>
          forEach (\<lambda>unit. loadFile this (join this (path unit) ''app.js'')) units s')"

definition loadCustomAgent :: "('e, 'r, 's) loader \<Rightarrow> ('e, unit, 's) js" where
  "loadCustomAgent this s =
     (case getLoadUnits this s of
        (Inl e, s') \<Rightarrow> (Inl e, s')
      | (Inr units, s') \<Rightarrow>
          forEach (\<lambda>unit. loadFile this (join this (path unit) ''agent.js'')) units s')"

subsection \<open>Observing the calls\<close>

text \<open>
  To speak about which hooks ran, and when, the state is paired with a log of events and
  \<open>loadFile\<close> is wrapped: the wrapper writes \<open>Enter p\<close> when \<open>loadFile p\<close> is called,
  runs the loader's own \<open>loadFile\<close>, and writes \<open>Return p\<close> when it returned or
  \<open>Throw p\<close> when it threw. \<open>getLoadUnits\<close> and \<open>join\<close> are the loader's own. The
  loader's methods do not see the log, and the wrapped loader computes what the loader
  computes (\<open>traced_loadCustomApp\<close> below).
\<close>

datatype event = Enter string | Return string | Throw string

definition traced :: "('e, 'r, 's) loader \<Rightarrow> ('e, 'r, 's \<times> event list) loader" where
  "traced this =
     \<lparr> getLoadUnits = (\<lambda>(s, tr). case getLoadUnits this s of (r, s') \<Rightarrow> (r, (s', tr))),
       loadFile = (\<lambda>p (s, tr).
          let tr = tr @ [Enter p]
          in (case loadFile this p s of
                (Inl e, s') \<Rightarrow> (Inl e, (s', tr @ [Throw p]))
              | (Inr r, s') \<Rightarrow> (Inr r, (s', tr @ [Return p])))),
       join = join this \<rparr>"

text \<open>The paths \<open>loadFile\<close> was called with, in the order of the calls.\<close>

fun entered :: "event list \<Rightarrow> string list" where
  "entered [] = []"
| "entered (Enter p # tr) = p # entered tr"
| "entered (Return p # tr) = entered tr"
| "entered (Throw p # tr) = entered tr"

text \<open>The log of one call of \<open>loadFile p\<close> that returned, and of one that threw.\<close>

definition returned :: "string \<Rightarrow> event list" where
  "returned p = [Enter p, Return p]"

definition threw :: "string \<Rightarrow> event list" where
  "threw p = [Enter p, Throw p]"

definition log_of :: "('e + 'a) \<times> ('s \<times> event list) \<Rightarrow> event list" where
  "log_of r = snd (snd r)"

section \<open>The coordinator: \<open>EggApplication\<close>\<close>

subsection \<open>JavaScript values\<close>

text \<open>
  An \<open>Error\<close> object, as far as the coordinator reads and writes it: its \<open>name\<close>, its
  \<open>message\<close>, and whether it is frozen, so that its \<open>name\<close> can be read and not
  written. \<open>new Error(m)\<close> has the name \<open>Error\<close> of the prototype and is not frozen.
\<close>

record js_error =
  name :: string
  message :: string
  frozen :: bool


text \<open>
  The values the coordinator receives from its callers (an option, a rejection reason).
  \<open>Other t s\<close> is a value that is neither \<open>undefined\<close>, \<open>null\<close>, a boolean, a string
  nor an \<open>Error\<close> (a number, a symbol, another object, a function), given by what this
  code can observe of it: whether it is truthy, and the string \<open>String(v)\<close> makes of it.
  \<open>Unconvertible\<close> is an object on which the conversion to a string itself throws, such
  as \<open>Object.create(null)\<close>, which has no \<open>toString\<close>. Objects whose properties are
  accessors with effects of their own are not values of this type.
\<close>

datatype jsval =
    Undefined
  | Null
  | Boolean bool
  | JString string
  | ErrorObj js_error
  | Other bool string
  | Unconvertible

text \<open>
  What is thrown: the \<open>AssertionError\<close> of a failed \<open>assert\<close>, with its message; the
  \<open>TypeError\<close> of the runtime, with its message; or any value, thrown by code that is
  not the coordinator's.
\<close>

datatype error = AssertionError string | TypeError string | Thrown jsval

text \<open>ToBoolean, as \<open>||\<close> applies it.\<close>

fun truthy :: "jsval \<Rightarrow> bool" where
  "truthy Undefined = False"
| "truthy Null = False"
| "truthy (Boolean b) = b"
| "truthy (JString s) = (s \<noteq> [])"
| "truthy (ErrorObj e) = True"
| "truthy (Other t s) = t"
| "truthy Unconvertible = True"

text \<open>\<open>typeof v === 'string'\<close> and \<open>v instanceof Error\<close>.\<close>

fun typeof_string :: "jsval \<Rightarrow> bool" where
  "typeof_string (JString s) = True"
| "typeof_string v = False"


text \<open>
  \<open>String(v)\<close>, which a template literal applies too. On an \<open>Error\<close> it is
  \<open>Error.prototype.toString\<close>: the name, the message, or \<open>name: message\<close> when neither
  is empty. On an object that cannot be converted it throws a \<open>TypeError\<close>.
\<close>

fun ToString :: "jsval \<Rightarrow> error + string" where
  "ToString Undefined = Inr ''undefined''"
| "ToString Null = Inr ''null''"
| "ToString (Boolean b) = Inr (if b then ''true'' else ''false'')"
| "ToString (JString s) = Inr s"
| "ToString (ErrorObj e) =
     Inr (if name e = [] then message e
          else if message e = [] then name e
          else name e @ '': '' @ message e)"
| "ToString (Other t s) = Inr s"
| "ToString Unconvertible = Inl (TypeError ''Cannot convert object to primitive value'')"


subsection \<open>The options, the process and what is thrown\<close>

text \<open>
  The \<open>options\<close> object of the constructor: the three properties it reads. A property
  that is absent reads as \<open>undefined\<close>; \<open>{}\<close> has all three absent. The constructor's
  argument is \<open>None\<close> when no options object is passed.
\<close>

record options =
  baseDir :: jsval
  type :: jsval
  plugins :: jsval

definition empty_object :: options where
  "empty_object = \<lparr> baseDir = Undefined, type = Undefined, plugins = Undefined \<rparr>"

text \<open>
  The process: what \<open>process.cwd()\<close> does, which returns the working directory or
  throws when that directory is gone; the file system \<open>fs\<close> reads (\<open>None\<close> where nothing
  exists); the listeners \<open>process.on\<close> has installed, in the
  order they were installed, and the number of objects allocated so far, which gives each
  new instance its identity. A listener is a function object: the only ones this code
  installs are the \<open>_unhandledRejectionHandler\<close> of an instance bound to that instance,
  \<open>Bound i\<close> for the instance \<open>i\<close>.
\<close>

datatype fs_entry = Directory | File

datatype fn = Bound nat

record process =
  cwd :: "error + string"
  fs :: "string \<Rightarrow> fs_entry option"
  process_listeners :: "(string \<times> fn) list"
  allocated :: nat

definition existsSync :: "process \<Rightarrow> string \<Rightarrow> bool" where
  "existsSync proc p = (fs proc p \<noteq> None)"

definition isDirectory :: "fs_entry \<Rightarrow> bool" where
  "isDirectory st = (st = Directory)"

definition process_on :: "string \<Rightarrow> fn \<Rightarrow> process \<Rightarrow> process" where
  "process_on ev f proc = proc\<lparr> process_listeners := process_listeners proc @ [(ev, f)] \<rparr>"

subsection \<open>Loggers and events\<close>

text \<open>
  A console logger is the list of the calls made on it: the level, the format string and
  the arguments. The arguments are the values the readiness events carry: a task id, the
  list of the ids that remain, or the \<open>{ id, remain }\<close> object of \<open>ready_stat\<close>.
\<close>

datatype level = INFO | WARN

datatype evval = VUndefined | VStr string | VList "string list" | VStat string "string list"

type_synonym console_logger = "(level \<times> string \<times> evval list) list"

definition info :: "string \<Rightarrow> evval list \<Rightarrow> console_logger \<Rightarrow> console_logger" where
  "info fmt args c = c @ [(INFO, fmt, args)]"

definition warn :: "string \<Rightarrow> evval list \<Rightarrow> console_logger \<Rightarrow> console_logger" where
  "warn fmt args c = c @ [(WARN, fmt, args)]"

text \<open>
  \<open>data.id\<close> and \<open>data.remain\<close>: the property of the \<open>{ id, remain }\<close> object,
  \<open>undefined\<close> on a string and on an array, which have no such property, and a
  \<open>TypeError\<close> on \<open>undefined\<close>, which has no properties.
\<close>

fun prop_id :: "evval \<Rightarrow> error + evval" where
  "prop_id (VStat i r) = Inr (VStr i)"
| "prop_id VUndefined = Inl (TypeError ''Cannot read properties of undefined'')"
| "prop_id v = Inr VUndefined"

fun prop_remain :: "evval \<Rightarrow> error + evval" where
  "prop_remain (VStat i r) = Inr (VList r)"
| "prop_remain VUndefined = Inl (TypeError ''Cannot read properties of undefined'')"
| "prop_remain v = Inr VUndefined"

text \<open>
  Modelled from the spec: \<open>createLoggers\<close> of \<open>./utils/logger\<close> is not among the sources.
  The spec gives the logger the coordinator reports to one operation for failures,
  \<open>error(errorValue)\<close>; a logger is the list of the values it was given, and the two
  loggers it creates have been given none.
\<close>

record loggers =
  logger :: "jsval list"
  coreLogger :: "jsval list"


subsection \<open>The readiness barrier\<close>

text \<open>
  Modelled from the spec: the barrier is the package \<open>ready-callback\<close> that
  \<open>_initReady\<close> requires and mixes into the instance; its code is not among the
  sources. What follows is the Readiness Barrier of the spec (its data model, its
  contract and the coordinator's state machine), sentence by sentence.

  A task is \<open>{ id, registeredAt, timedOut }\<close>; the pending set maps ids to tasks, each id
  at most once. It is kept as the list of the pending tasks in the order of their
  registration. A token closes over the id of its task, so a token is that id.
\<close>

record task =
  task_id :: string
  registeredAt :: nat
  timedOut :: bool

text \<open>
  Modelled from the spec: the watchdog of a task (ready-callback's, not among the
  sources), a one-shot timer started at the registration that is due once its delay has
  elapsed. It is taken off the barrier when it fires and when its task completes.
\<close>

record watchdog =
  watched :: string
  started :: nat
  delay :: nat

definition due :: "nat \<Rightarrow> watchdog \<Rightarrow> bool" where
  "due t w = (started w + delay w \<le> t)"

text \<open>
  Modelled from the spec: the lifecycle states of the coordinator, which the sources do
  not hold as a value; and what the barrier emits: \<open>task_done\<close> with the completed id
  and the ids that remain, \<open>timeout\<close> with an id, and \<open>ready\<close>.
\<close>

datatype lifecycle = INIT | LOADING | WAITING | READY

datatype signal = Task_done string "string list" | Timeout string | Ready

datatype barrier_error = DuplicateRegistration string

text \<open>
  Modelled from the spec: the state of the barrier (ready-callback's, not among the
  sources). It holds the configured delay of its watchdogs, the pending tasks, the
  running watchdogs, the clock, every id it has registered so far, and the lifecycle
  state of its coordinator (the loader "has finished all units" in the states \<open>WAITING\<close>
  and \<open>READY\<close>).
\<close>

record barrier =
  configured :: nat
  pending :: "task list"
  watchdogs :: "watchdog list"
  now :: nat
  registered :: "string list"
  state :: lifecycle

text \<open>
  Modelled from the spec: the function the package exports is not among the sources. It
  is called with the options \<open>{ timeout }\<close>, the delay of the watchdogs, which is 10 000
  time-units when no delay is given, and returns a barrier with nothing pending.
  \<open>status()\<close> is the set of the pending ids.
\<close>

record ready_options =
  timeout :: "nat option"

definition ready_callback :: "ready_options \<Rightarrow> barrier" where
  "ready_callback opt =
     \<lparr> configured = (case timeout opt of None \<Rightarrow> 10000 | Some d \<Rightarrow> d),
       pending = [], watchdogs = [], now = 0, registered = [], state = INIT \<rparr>"

definition status :: "barrier \<Rightarrow> string set" where
  "status b = set (map task_id (pending b))"

text \<open>
  Modelled from the spec: the id generated for a registration that gives none is
  "guaranteed unique for the life of this barrier instance". Here it is longer than every
  id the barrier has registered.
\<close>

definition fresh_id :: "string list \<Rightarrow> string" where
  "fresh_id ids = replicate (Suc (foldr (\<lambda>i n. max (length i) n) ids 0)) CHR ''#''"

text \<open>
  Modelled from the spec: \<open>register(id?)\<close> of the barrier, not among the sources. An
  omitted id is generated, unique for the life of the barrier; an
  id that is pending is refused with \<open>DuplicateRegistration\<close> and the barrier is as it
  was; otherwise the task is stored, its watchdog is started with the configured delay
  and the token is returned.
\<close>

definition register :: "string option \<Rightarrow> barrier \<Rightarrow> barrier_error + (string \<times> barrier)" where
  "register given b =
     (let i = (case given of None \<Rightarrow> fresh_id (registered b) | Some i \<Rightarrow> i)
      in if i \<in> status b then Inl (DuplicateRegistration i)
         else Inr (i, b\<lparr> pending := pending b @ [\<lparr> task_id = i, registeredAt = now b, timedOut = False \<rparr>],
                         watchdogs := watchdogs b @ [\<lparr> watched = i, started = now b, delay = configured b \<rparr>],
                         registered := i # registered b \<rparr>))"

text \<open>
  Modelled from the spec: the snapshot \<open>task_done\<close> carries, the ids that remain
  "ordered by registration time, ties broken by id".
\<close>

definition remaining :: "task list \<Rightarrow> string list" where
  "remaining ts = map task_id (sort_key (\<lambda>t. (registeredAt t, task_id t)) ts)"

text \<open>
  Modelled from the spec: \<open>complete(token)\<close> of the barrier, not among the sources. It
  is a silent no-op when the task is not pending; otherwise the task
  is removed and \<open>task_done\<close> is emitted, and \<open>ready\<close> too if the pending set is now
  empty and the loader has finished all units; once \<open>READY\<close>, never again.
\<close>

definition complete :: "string \<Rightarrow> barrier \<Rightarrow> barrier \<times> signal list" where
  "complete token b =
     (if token \<notin> status b then (b, [])
      else
        let rest = filter (\<lambda>t. task_id t \<noteq> token) (pending b);
            b' = b\<lparr> pending := rest, watchdogs := filter (\<lambda>w. watched w \<noteq> token) (watchdogs b) \<rparr>
        in if rest = [] \<and> state b = WAITING
           then (b'\<lparr> state := READY \<rparr>, [Task_done token (remaining rest), Ready])
           else (b', [Task_done token (remaining rest)]))"

text \<open>
  Modelled from the spec: the expiry of the watchdogs, not among the sources. Time
  passes: every watchdog that is now due fires, once. It emits \<open>timeout\<close> with its id
  and marks its task, which stays pending.
\<close>

definition advance :: "nat \<Rightarrow> barrier \<Rightarrow> barrier \<times> signal list" where
  "advance dt b =
     (let t = now b + dt;
          fired = filter (due t) (watchdogs b)
      in (b\<lparr> now := t,
              watchdogs := filter (\<lambda>w. \<not> due t w) (watchdogs b),
              pending := map (\<lambda>k. if task_id k \<in> set (map watched fired) then k\<lparr> timedOut := True \<rparr> else k)
                           (pending b) \<rparr>,
          map (\<lambda>w. Timeout (watched w)) fired))"

text \<open>
  Modelled from the spec: the coordinator's state machine, of which the sources hold no
  code. \<open>INIT\<close> goes to \<open>LOADING\<close> when the loader starts on the
  units; when it has finished them, \<open>LOADING\<close> to \<open>WAITING\<close>, or straight to \<open>READY\<close>
  (emitting \<open>ready\<close>) if nothing is pending. The state never goes back.
\<close>

definition start_loading :: "barrier \<Rightarrow> barrier \<times> signal list" where
  "start_loading b = (if state b = INIT then (b\<lparr> state := LOADING \<rparr>, []) else (b, []))"

definition finish_loading :: "barrier \<Rightarrow> barrier \<times> signal list" where
  "finish_loading b =
     (if state b = LOADING
      then if pending b = [] then (b\<lparr> state := READY \<rparr>, [Ready]) else (b\<lparr> state := WAITING \<rparr>, [])
      else (b, []))"

text \<open>
  What can happen to a barrier, one thing after the other, and what it emits over a
  whole trace. A registration that is refused leaves the barrier as it was.
\<close>

datatype input = Register "string option" | Complete string | Advance nat | StartLoading | FinishLoading

fun step :: "input \<Rightarrow> barrier \<Rightarrow> barrier \<times> signal list" where
  "step (Register given) b = (case register given b of Inl e \<Rightarrow> (b, []) | Inr (i, b') \<Rightarrow> (b', []))"
| "step (Complete token) b = complete token b"
| "step (Advance dt) b = advance dt b"
| "step StartLoading b = start_loading b"
| "step FinishLoading b = finish_loading b"

fun run :: "input list \<Rightarrow> barrier \<Rightarrow> barrier \<times> signal list" where
  "run [] b = (b, [])"
| "run (i # ins) b =
     (case step i b of (b', out) \<Rightarrow> (case run ins b' of (b'', out') \<Rightarrow> (b'', out @ out')))"

text \<open>An invariant of the barrier: a watchdog runs only for a task that is pending.\<close>

definition wellformed :: "barrier \<Rightarrow> bool" where
  "wellformed b = (\<forall>w \<in> set (watchdogs b). watched w \<in> status b)"

subsection \<open>The instance\<close>

text \<open>
  The fields of an \<open>EggApplication\<close> that its own methods read and write. \<open>self\<close> is
  the identity of the object. \<open>loader\<close>, \<open>readiness\<close> (what \<open>mixin\<close> attaches) and the
  bound \<open>_unhandledRejectionHandler\<close> are absent until the constructor sets them;
  \<open>LOGGERS\<close> until the \<open>loggers\<close> getter is first read. \<open>listeners\<close> are those of the
  instance as an event emitter, in the order they were added: the event and the
  listener. The listeners this class adds read \<open>this.console\<close> when they are called and
  write to nothing else, so a listener is a call on the console, given the event's value.
\<close>

type_synonym listener = "evval \<Rightarrow> (error, unit, console_logger) js"

record 'l app =
  self :: nat
  priv_options :: options
  console :: console_logger
  loader :: "'l option"
  LOGGERS :: "loggers option"
  readiness :: "barrier option"
  listeners :: "(string \<times> listener) list"
  priv_unhandledRejectionHandler :: "fn option"

text \<open>
  \<open>emitter.on(event, listener)\<close> adds the listener last and returns the emitter.
  \<open>emitter.emit(event, value)\<close> calls the listeners of the event in the order they were
  added; a listener that throws ends the calls and the exception leaves \<open>emit\<close>.
\<close>

definition on :: "string \<Rightarrow> listener \<Rightarrow> 'l app \<Rightarrow> 'l app" where
  "on ev h this = this\<lparr> listeners := listeners this @ [(ev, h)] \<rparr>"

fun call_listeners :: "(string \<times> listener) list \<Rightarrow> string \<Rightarrow> evval \<Rightarrow> (error, unit, console_logger) js" where
  "call_listeners [] ev v c = (Inr (), c)"
| "call_listeners ((n, h) # ls) ev v c =
     (if n = ev
      then (case h v c of
              (Inl x, c') \<Rightarrow> (Inl x, c')
            | (Inr u, c') \<Rightarrow> call_listeners ls ev v c')
      else call_listeners ls ev v c)"

definition emit :: "string \<Rightarrow> evval \<Rightarrow> (error, unit, 'l app) js" where
  "emit ev v this =
     (case call_listeners (listeners this) ev v (console this) of
        (r, c) \<Rightarrow> (r, this\<lparr> console := c \<rparr>))"

text \<open>
  Modelled from the spec: \<open>mixin\<close> belongs to the same package. It gives the instance
  the barrier's registration capability, that is, the barrier.
\<close>

definition mixin :: "barrier \<Rightarrow> 'l app \<Rightarrow> 'l app" where
  "mixin b this = this\<lparr> readiness := Some b \<rparr>"

text \<open>
  The two listeners \<open>_initReady\<close> adds, arrow functions in the source:
  \<open>data => this.console.info(..., data.id, data.remain)\<close> and
  \<open>id => this.console.warn(..., id)\<close>.
\<close>

definition ready_stat_listener :: listener where
  "ready_stat_listener data c =
     (case prop_id data of
        Inl x \<Rightarrow> (Inl x, c)
      | Inr i \<Rightarrow>
         (case prop_remain data of
            Inl x \<Rightarrow> (Inl x, c)
          | Inr r \<Rightarrow> (Inr (), info ''[egg:core:ready_stat] end ready task %s, remain %j'' [i, r] c)))"

definition ready_timeout_listener :: listener where
  "ready_timeout_listener ident c =
     (Inr (), warn ''[egg:core:ready_timeout] 10 seconds later %s was still unable to finish.'' [ident] c)"

definition initReady :: "'l app \<Rightarrow> 'l app" where
  "initReady this =
     (let this = mixin (ready_callback \<lparr> timeout = Some 10000 \<rparr>) this;
          this = on ''ready_stat'' ready_stat_listener this;
          this = on ''ready_timeout'' ready_timeout_listener this
      in this)"

text \<open>The getters \<open>type\<close> and \<open>baseDir\<close>.\<close>

definition get_type :: "'l app \<Rightarrow> jsval" where
  "get_type this = type (priv_options this)"





subsection \<open>The constructor\<close>

text \<open>
  The loader class is the subclass's (\<open>this[Symbol.for('egg#loader')]\<close>) and not among
  the sources: \<open>Loader\<close> is \<open>new Loader({ baseDir, app, plugins, logger })\<close>, given the
  base directory and the plugins, and \<open>loadConfig\<close> its method; each returns the loader
  or throws, and neither touches the listeners of the process.
\<close>

record 'l env =
  Loader :: "string \<Rightarrow> jsval \<Rightarrow> error + 'l"
  loadConfig :: "'l \<Rightarrow> error + 'l"

text \<open>\<open>fs.statSync(p)\<close> throws where nothing exists.\<close>

definition statSync :: "process \<Rightarrow> string \<Rightarrow> error + fs_entry" where
  "statSync proc p = (case fs proc p of None \<Rightarrow> Inl (Thrown (Other True (''ENOENT: '' @ p))) | Some st \<Rightarrow> Inr st)"

text \<open>
  The constructor, statement by statement: the two defaults (the second calls
  \<open>process.cwd()\<close> only when the \<open>baseDir\<close> given is falsy, and what that throws leaves
  the constructor), the four assertions with their messages, \<open>super()\<close> (which allocates
  the object), the fields, the loader and its configuration, \<open>_initReady\<close>, and the
  handler bound and installed on the process.
\<close>

definition constructor :: "'l env \<Rightarrow> options option \<Rightarrow> (error, 'l app, process) js" where
  "constructor env arg proc =
     (let options = (case arg of None \<Rightarrow> empty_object | Some given \<Rightarrow> given)
      in
        (case (if truthy (baseDir options) then Inr (baseDir options)
               else (case cwd proc of Inl x \<Rightarrow> Inl x | Inr d \<Rightarrow> Inr (JString d))) of
           Inl x \<Rightarrow> (Inl x, proc)
         | Inr defaulted \<Rightarrow>
            (let options = options\<lparr> baseDir := defaulted \<rparr>
             in
               if \<not> typeof_string (baseDir options)
               then (Inl (AssertionError ''options.baseDir required, and must be a string''), proc)
               else
                 (case ToString (baseDir options) of
                    Inl x \<Rightarrow> (Inl x, proc)
                  | Inr dir \<Rightarrow>
                     (if \<not> existsSync proc dir
                      then (Inl (AssertionError (''Directory '' @ dir @ '' not exists'')), proc)
                      else
                        (case statSync proc dir of
                           Inl x \<Rightarrow> (Inl x, proc)
                         | Inr st \<Rightarrow>
                            (if \<not> isDirectory st
                             then (Inl (AssertionError (''Directory '' @ dir @ '' is not a directory'')), proc)
                             else if \<not> (type options = JString ''application'' \<or> type options = JString ''agent'')
                             then (Inl (AssertionError ''options.type should be application or agent''), proc)
                             else
                               (let this = \<lparr> self = allocated proc, priv_options = options, console = [],
                                             loader = None, LOGGERS = None, readiness = None, listeners = [],
                                             priv_unhandledRejectionHandler = None \<rparr>;
                                    proc = proc\<lparr> allocated := Suc (allocated proc) \<rparr>
                                in
                                  (case Loader env dir (plugins options) of
                                     Inl x \<Rightarrow> (Inl x, proc)
                                   | Inr l \<Rightarrow>
                                      (case loadConfig env l of
                                         Inl x \<Rightarrow> (Inl x, proc)
                                       | Inr l' \<Rightarrow>
                                          (let this = this\<lparr> loader := Some l' \<rparr>;
                                               this = initReady this;
                                               this = this\<lparr> priv_unhandledRejectionHandler :=
                                                             Some (Bound (self this)) \<rparr>
                                           in (Inr this,
                                               process_on ''unhandledRejection'' (Bound (self this)) proc))))))))))))"

text \<open>Instances made one after the other in the same process: the results, and the process they leave.\<close>

fun construct_all :: "'l env \<Rightarrow> options option list \<Rightarrow> process \<Rightarrow> (error + 'l app) list \<times> process" where
  "construct_all env [] proc = ([], proc)"
| "construct_all env (arg # args) proc =
     (case constructor env arg proc of
        (r, proc') \<Rightarrow> (case construct_all env args proc' of (rs, proc'') \<Rightarrow> (r # rs, proc'')))"

text \<open>The instances among the results: the constructions that returned.\<close>

fun built :: "('e + 'a) list \<Rightarrow> 'a list" where
  "built [] = []"
| "built (Inl e # rs) = built rs"
| "built (Inr a # rs) = a # built rs"

text \<open>The handlers installed on the process for an event.\<close>

definition installed :: "string \<Rightarrow> process \<Rightarrow> fn list" where
  "installed ev proc = map snd (filter (\<lambda>(n, f). n = ev) (process_listeners proc))"

subsection \<open>A process and a loader class to run the definitions on\<close>

text \<open>
  A process whose working directory is \<open>/srv/app\<close>, where \<open>/srv/app\<close> and \<open>/srv\<close> are directories and
  \<open>/srv/app/package.json\<close> is a file; a loader class that never throws.
\<close>

definition srv :: process where
  "srv = \<lparr> cwd = Inr ''/srv/app'',
           fs = (\<lambda>p. if p = ''/srv/app'' \<or> p = ''/srv'' then Some Directory
                      else if p = ''/srv/app/package.json'' then Some File else None),
           process_listeners = [], allocated = 0 \<rparr>"

definition plain_loader :: "(string \<times> jsval) env" where
  "plain_loader = \<lparr> Loader = (\<lambda>dir plugins. Inr (dir, plugins)), loadConfig = (\<lambda>l. Inr l) \<rparr>"

text \<open>The options of an application in \<open>/srv/app\<close>.\<close>

definition app_options :: options where
  "app_options = \<lparr> baseDir = JString ''/srv/app'', type = JString ''application'', plugins = Undefined \<rparr>"

section \<open>A loader to run the definitions on\<close>

text \<open>
  Three units \<open>/a\<close>, \<open>/b\<close>, \<open>/c\<close>; the state is the list of the files loaded so
  far; \<open>loadFile\<close> throws the path on the files of \<open>bad\<close> and returns on the others.
\<close>

definition demo_loader :: "string list \<Rightarrow> (string, unit, string list) loader" where
  "demo_loader bad =
     \<lparr> getLoadUnits = (\<lambda>s. (Inr [\<lparr> path = ''/a'' \<rparr>, \<lparr> path = ''/b'' \<rparr>, \<lparr> path = ''/c'' \<rparr>], s)),
       loadFile = (\<lambda>p s. if p \<in> set bad then (Inl p, s @ [p]) else (Inr (), s @ [p])),
       join = (\<lambda>dir file. dir @ ''/'' @ file) \<rparr>"

section \<open>The loader runs the hooks in the order of the units\<close>

lemma forEach_append:
  "forEach f (xs @ ys) s =
     (case forEach f xs s of
        (Inl e, s') \<Rightarrow> (Inl e, s')
      | (Inr u, s') \<Rightarrow> forEach f ys s')"
  by (induction xs arbitrary: s) (auto split: prod.splits sum.splits)

lemma traced_loadFile:
  "loadFile (traced this) p (s, tr) =
     (case loadFile this p s of
        (Inl e, s') \<Rightarrow> (Inl e, (s', tr @ threw p))
      | (Inr r, s') \<Rightarrow> (Inr r, (s', tr @ returned p)))"
  by (simp add: traced_def threw_def returned_def Let_def split: prod.splits sum.splits)

lemma traced_getLoadUnits:
  "getLoadUnits (traced this) (s, tr) = (fst (getLoadUnits this s), (snd (getLoadUnits this s), tr))"
  by (simp add: traced_def split: prod.splits)

lemma traced_join: "join (traced this) = join this"
  by (simp add: traced_def)

text \<open>A run of the wrapped callback over units whose hooks all return.\<close>

lemma forEach_traced_returns:
  "forEach (\<lambda>u. loadFile this (h u)) us s = (Inr (), s') \<Longrightarrow>
   forEach (\<lambda>u. loadFile (traced this) (h u)) us (s, tr) =
     (Inr (), (s', tr @ concat (map (\<lambda>u. returned (h u)) us)))"
  by (induction us arbitrary: s tr) (auto simp: traced_loadFile split: prod.splits sum.splits)

text \<open>A run that throws: some unit \<open>k\<close> is the one whose hook threw.\<close>

lemma forEach_traced_throws:
  "forEach (\<lambda>u. loadFile this (h u)) us s = (Inl e, s') \<Longrightarrow>
   \<exists>k<length us. forEach (\<lambda>u. loadFile (traced this) (h u)) us (s, tr) =
      (Inl e, (s', tr @ concat (map (\<lambda>u. returned (h u)) (take k us)) @ threw (h (us ! k))))"
proof (induction us arbitrary: s tr)
  case Nil
  then show ?case by simp
next
  case (Cons u us)
  obtain r s1 where first: "loadFile this (h u) s = (r, s1)"
    by (cases "loadFile this (h u) s")
  show ?case
  proof (cases r)
    case (Inl e1)
    with first Cons.prems have "e1 = e" "s1 = s'" by auto
    with first Inl have "forEach (\<lambda>u. loadFile (traced this) (h u)) (u # us) (s, tr) =
        (Inl e, (s', tr @ concat (map (\<lambda>u. returned (h u)) (take 0 (u # us))) @ threw (h ((u # us) ! 0))))"
      by (simp add: traced_loadFile)
    then show ?thesis by blast
  next
    case (Inr v)
    with first Cons.prems have rest: "forEach (\<lambda>u. loadFile this (h u)) us s1 = (Inl e, s')"
      by simp
    from Cons.IH [OF rest, of "tr @ returned (h u)"] obtain k where k: "k < length us"
      and eq: "forEach (\<lambda>u. loadFile (traced this) (h u)) us (s1, tr @ returned (h u)) =
          (Inl e, (s', (tr @ returned (h u)) @ concat (map (\<lambda>u. returned (h u)) (take k us)) @ threw (h (us ! k))))"
      by blast
    from first Inr eq have "forEach (\<lambda>u. loadFile (traced this) (h u)) (u # us) (s, tr) =
        (Inl e, (s', tr @ concat (map (\<lambda>u. returned (h u)) (take (Suc k) (u # us))) @ threw (h ((u # us) ! Suc k))))"
      by (simp add: traced_loadFile)
    moreover from k have "Suc k < length (u # us)" by simp
    ultimately show ?thesis by blast
  qed
qed

text \<open>Every run of the wrapped callback, whatever the hooks do.\<close>

lemma forEach_traced_log:
  "(\<exists>s'. forEach (\<lambda>u. loadFile (traced this) (h u)) us (s, tr) =
           (Inr (), (s', tr @ concat (map (\<lambda>u. returned (h u)) us)))) \<or>
   (\<exists>k<length us. \<exists>e s'. forEach (\<lambda>u. loadFile (traced this) (h u)) us (s, tr) =
           (Inl e, (s', tr @ concat (map (\<lambda>u. returned (h u)) (take k us)) @ threw (h (us ! k)))))"
proof (cases "forEach (\<lambda>u. loadFile this (h u)) us s")
  case (Pair r s')
  show ?thesis
  proof (cases r)
    case (Inl e)
    with Pair forEach_traced_throws [of this h us s e s' tr] show ?thesis by blast
  next
    case (Inr u)
    with Pair forEach_traced_returns [of this h us s s' tr] show ?thesis by auto
  qed
qed

lemma forEach_fails_at:
  assumes k: "k < length us"
    and pre: "forEach f (take k us) s = (Inr (), sk)"
    and thr: "f (us ! k) sk = (Inl e, s')"
  shows "forEach f us s = (Inl e, s')"
proof -
  from k have "us = take k us @ (us ! k) # drop (Suc k) us"
    by (simp add: id_take_nth_drop)
  then have "forEach f us s = forEach f (take k us @ (us ! k) # drop (Suc k) us) s" by simp
  also have "\<dots> = (Inl e, s')" using pre thr by (simp add: forEach_append)
  finally show ?thesis .
qed

lemma forEach_traced_fails_at:
  assumes k: "k < length us"
    and pre: "forEach (\<lambda>u. loadFile this (h u)) (take k us) s = (Inr (), sk)"
    and thr: "loadFile this (h (us ! k)) sk = (Inl e, s')"
  shows "forEach (\<lambda>u. loadFile (traced this) (h u)) us (s, tr) =
           (Inl e, (s', tr @ concat (map (\<lambda>u. returned (h u)) (take k us)) @ threw (h (us ! k))))"
proof -
  let ?T = "\<lambda>u. loadFile (traced this) (h u)"
  have pre': "forEach ?T (take k us) (s, tr) = (Inr (), (sk, tr @ concat (map (\<lambda>u. returned (h u)) (take k us))))"
    by (rule forEach_traced_returns [OF pre])
  have thr': "?T (us ! k) (sk, tr @ concat (map (\<lambda>u. returned (h u)) (take k us))) =
      (Inl e, (s', (tr @ concat (map (\<lambda>u. returned (h u)) (take k us))) @ threw (h (us ! k))))"
    using thr by (simp add: traced_loadFile)
  from forEach_fails_at [of k us ?T, OF k pre' thr'] show ?thesis by simp
qed

lemma entered_append: "entered (xs @ ys) = entered xs @ entered ys"
  by (induction xs rule: entered.induct) auto

lemma entered_returned: "entered (concat (map (\<lambda>u. returned (h u)) us)) = map h us"
  by (induction us) (auto simp: returned_def)

lemma entered_threw: "entered (threw p) = [p]"
  by (simp add: threw_def)

text \<open>The wrapped loader computes what the loader computes.\<close>

lemma forEach_traced_erase:
  "fst (forEach (\<lambda>u. loadFile (traced this) (h u)) us (s, tr)) = fst (forEach (\<lambda>u. loadFile this (h u)) us s) \<and>
   fst (snd (forEach (\<lambda>u. loadFile (traced this) (h u)) us (s, tr))) = snd (forEach (\<lambda>u. loadFile this (h u)) us s)"
  by (induction us arbitrary: s tr) (auto simp: traced_loadFile split: prod.splits sum.splits)

lemma traced_loadCustomApp:
  "fst (loadCustomApp (traced this) (s, tr)) = fst (loadCustomApp this s) \<and>
   fst (snd (loadCustomApp (traced this) (s, tr))) = snd (loadCustomApp this s)"
  using forEach_traced_erase [of this "\<lambda>u. join this (path u) ''app.js''"]
  by (auto simp: loadCustomApp_def traced_getLoadUnits traced_join split: prod.splits sum.splits)

lemma traced_loadCustomAgent:
  "fst (loadCustomAgent (traced this) (s, tr)) = fst (loadCustomAgent this s) \<and>
   fst (snd (loadCustomAgent (traced this) (s, tr))) = snd (loadCustomAgent this s)"
  using forEach_traced_erase [of this "\<lambda>u. join this (path u) ''agent.js''"]
  by (auto simp: loadCustomAgent_def traced_getLoadUnits traced_join split: prod.splits sum.splits)

lemma loadCustomApp_traced_units:
  "getLoadUnits this s = (Inr units, s0) \<Longrightarrow>
   loadCustomApp (traced this) (s, tr) =
     forEach (\<lambda>u. loadFile (traced this) (join this (path u) ''app.js'')) units (s0, tr)"
  by (simp add: loadCustomApp_def traced_getLoadUnits traced_join)

lemma loadCustomAgent_traced_units:
  "getLoadUnits this s = (Inr units, s0) \<Longrightarrow>
   loadCustomAgent (traced this) (s, tr) =
     forEach (\<lambda>u. loadFile (traced this) (join this (path u) ''agent.js'')) units (s0, tr)"
  by (simp add: loadCustomAgent_def traced_getLoadUnits traced_join)

lemma loadCustomApp_units:
  "getLoadUnits this s = (Inr units, s0) \<Longrightarrow>
   loadCustomApp this s = forEach (\<lambda>u. loadFile this (join this (path u) ''app.js'')) units s0"
  by (simp add: loadCustomApp_def)

lemma loadCustomAgent_units:
  "getLoadUnits this s = (Inr units, s0) \<Longrightarrow>
   loadCustomAgent this s = forEach (\<lambda>u. loadFile this (join this (path u) ''agent.js'')) units s0"
  by (simp add: loadCustomAgent_def)

text \<open>
  Claim C1. Let \<open>getLoadUnits\<close> return the units \<open>units\<close>. Whatever the hooks do, the
  log of \<open>loadCustomApp\<close> is one of two: every unit's hook was entered and returned, one
  after the other in the order of \<open>units\<close>, and the load returned; or the hooks of the
  first \<open>k\<close> units were entered and returned in that order, the hook of unit \<open>k\<close> was
  entered and threw, and the load threw. A hook is entered only when the one before it has
  returned, and no unit is taken out of order. The same holds of \<open>loadCustomAgent\<close>.
\<close>

theorem hooks_run_in_unit_order:
  assumes units: "getLoadUnits this s = (Inr units, s0)"
  shows "((\<exists>s'. loadCustomApp (traced this) (s, []) =
             (Inr (), (s', concat (map (\<lambda>u. returned (join this (path u) ''app.js'')) units)))) \<or>
          (\<exists>k<length units. \<exists>e s'. loadCustomApp (traced this) (s, []) =
             (Inl e, (s', concat (map (\<lambda>u. returned (join this (path u) ''app.js'')) (take k units))
                          @ threw (join this (path (units ! k)) ''app.js''))))) \<and>
         ((\<exists>s'. loadCustomAgent (traced this) (s, []) =
             (Inr (), (s', concat (map (\<lambda>u. returned (join this (path u) ''agent.js'')) units)))) \<or>
          (\<exists>k<length units. \<exists>e s'. loadCustomAgent (traced this) (s, []) =
             (Inl e, (s', concat (map (\<lambda>u. returned (join this (path u) ''agent.js'')) (take k units))
                          @ threw (join this (path (units ! k)) ''agent.js'')))))"
proof
  show "(\<exists>s'. loadCustomApp (traced this) (s, []) =
             (Inr (), (s', concat (map (\<lambda>u. returned (join this (path u) ''app.js'')) units)))) \<or>
          (\<exists>k<length units. \<exists>e s'. loadCustomApp (traced this) (s, []) =
             (Inl e, (s', concat (map (\<lambda>u. returned (join this (path u) ''app.js'')) (take k units))
                          @ threw (join this (path (units ! k)) ''app.js''))))"
    using forEach_traced_log [of this "\<lambda>u. join this (path u) ''app.js''" units s0 "[]"]
    by (simp add: loadCustomApp_traced_units [OF units])
  show "(\<exists>s'. loadCustomAgent (traced this) (s, []) =
             (Inr (), (s', concat (map (\<lambda>u. returned (join this (path u) ''agent.js'')) units)))) \<or>
          (\<exists>k<length units. \<exists>e s'. loadCustomAgent (traced this) (s, []) =
             (Inl e, (s', concat (map (\<lambda>u. returned (join this (path u) ''agent.js'')) (take k units))
                          @ threw (join this (path (units ! k)) ''agent.js''))))"
    using forEach_traced_log [of this "\<lambda>u. join this (path u) ''agent.js''" units s0 "[]"]
    by (simp add: loadCustomAgent_traced_units [OF units])
qed

theorem hooks_run_in_unit_order_witness:
  "getLoadUnits (demo_loader []) [] = (Inr [\<lparr> path = ''/a'' \<rparr>, \<lparr> path = ''/b'' \<rparr>, \<lparr> path = ''/c'' \<rparr>], []) \<and>
   log_of (loadCustomApp (traced (demo_loader [])) ([], [])) =
     [Enter ''/a/app.js'', Return ''/a/app.js'', Enter ''/b/app.js'', Return ''/b/app.js'',
      Enter ''/c/app.js'', Return ''/c/app.js''] \<and>
   log_of (loadCustomAgent (traced (demo_loader [''/b/agent.js''])) ([], [])) =
     [Enter ''/a/agent.js'', Return ''/a/agent.js'', Enter ''/b/agent.js'', Throw ''/b/agent.js'']"
proof -
  have u: "getLoadUnits (demo_loader bad) [] = (Inr [\<lparr> path = ''/a'' \<rparr>, \<lparr> path = ''/b'' \<rparr>, \<lparr> path = ''/c'' \<rparr>], [])" for bad
    by (simp add: demo_loader_def)
  have j: "join (demo_loader bad) dir name = dir @ ''/'' @ name" for bad dir name
    by (simp add: demo_loader_def)
  have a: "fst (loadCustomApp (traced (demo_loader [])) ([], [])) = Inr ()"
    by (simp add: loadCustomApp_def traced_def demo_loader_def)
  from hooks_run_in_unit_order [OF u [of "[]"]] a
  have "log_of (loadCustomApp (traced (demo_loader [])) ([], [])) =
     [Enter ''/a/app.js'', Return ''/a/app.js'', Enter ''/b/app.js'', Return ''/b/app.js'',
      Enter ''/c/app.js'', Return ''/c/app.js'']"
    by (auto simp: j log_of_def returned_def)
  moreover
  have "log_of (loadCustomAgent (traced (demo_loader [''/b/agent.js''])) ([], [])) =
     [Enter ''/a/agent.js'', Return ''/a/agent.js'', Enter ''/b/agent.js'', Throw ''/b/agent.js'']"
    by (simp add: log_of_def loadCustomAgent_def traced_def demo_loader_def)
  ultimately show ?thesis using u by simp
qed

text \<open>
  Claim C2. Let \<open>getLoadUnits\<close> return \<open>units\<close>, let the hooks of the first \<open>k\<close>
  units return and the hook of unit \<open>k\<close> throw \<open>e\<close>. Then \<open>loadCustomApp\<close> throws
  \<open>e\<close> to its caller, in the state the hook left, and the hooks entered are those of the
  units \<open>0..k\<close> and no other: no hook of a later unit is called. The same holds of
  \<open>loadCustomAgent\<close>.
\<close>

theorem hook_throw_aborts_load:
  assumes units: "getLoadUnits this s = (Inr units, s0)"
    and k: "k < length units"
  shows "(forEach (\<lambda>unit. loadFile this (join this (path unit) ''app.js'')) (take k units) s0 = (Inr (), sk) \<and>
          loadFile this (join this (path (units ! k)) ''app.js'') sk = (Inl e, s') \<longrightarrow>
            loadCustomApp this s = (Inl e, s') \<and>
            entered (log_of (loadCustomApp (traced this) (s, []))) =
              map (\<lambda>unit. join this (path unit) ''app.js'') (take (Suc k) units)) \<and>
         (forEach (\<lambda>unit. loadFile this (join this (path unit) ''agent.js'')) (take k units) s0 = (Inr (), sk) \<and>
          loadFile this (join this (path (units ! k)) ''agent.js'') sk = (Inl e, s') \<longrightarrow>
            loadCustomAgent this s = (Inl e, s') \<and>
            entered (log_of (loadCustomAgent (traced this) (s, []))) =
              map (\<lambda>unit. join this (path unit) ''agent.js'') (take (Suc k) units))"
proof -
  have gen: "forEach (\<lambda>u. loadFile this (h u)) units s0 = (Inl e, s') \<and>
      entered (log_of (forEach (\<lambda>u. loadFile (traced this) (h u)) units (s0, []))) = map h (take (Suc k) units)"
    if pre: "forEach (\<lambda>u. loadFile this (h u)) (take k units) s0 = (Inr (), sk)"
      and thr: "loadFile this (h (units ! k)) sk = (Inl e, s')" for h
  proof
    show "forEach (\<lambda>u. loadFile this (h u)) units s0 = (Inl e, s')"
      by (rule forEach_fails_at [OF k pre thr])
    have "entered (log_of (forEach (\<lambda>u. loadFile (traced this) (h u)) units (s0, []))) =
        map h (take k units) @ [h (units ! k)]"
      by (simp add: forEach_traced_fails_at [OF k pre thr] log_of_def entered_append
          entered_returned entered_threw)
    also have "\<dots> = map h (take (Suc k) units)"
      using k by (simp add: take_Suc_conv_app_nth)
    finally show "entered (log_of (forEach (\<lambda>u. loadFile (traced this) (h u)) units (s0, []))) =
        map h (take (Suc k) units)" .
  qed
  show ?thesis
    using gen [of "\<lambda>u. join this (path u) ''app.js''"] gen [of "\<lambda>u. join this (path u) ''agent.js''"]
    by (simp add: loadCustomApp_units [OF units] loadCustomAgent_units [OF units]
        loadCustomApp_traced_units [OF units] loadCustomAgent_traced_units [OF units])
qed

theorem hook_throw_aborts_load_witness:
  "loadCustomApp (demo_loader [''/b/app.js'']) [] = (Inl ''/b/app.js'', [''/a/app.js'', ''/b/app.js'']) \<and>
   entered (log_of (loadCustomApp (traced (demo_loader [''/b/app.js''])) ([], []))) = [''/a/app.js'', ''/b/app.js''] \<and>
   loadCustomAgent (demo_loader [''/a/agent.js'']) [] = (Inl ''/a/agent.js'', [''/a/agent.js'']) \<and>
   entered (log_of (loadCustomAgent (traced (demo_loader [''/a/agent.js''])) ([], []))) = [''/a/agent.js'']"
proof -
  let ?units = "[\<lparr> path = ''/a'' \<rparr>, \<lparr> path = ''/b'' \<rparr>, \<lparr> path = ''/c'' \<rparr>]"
  have u: "getLoadUnits (demo_loader bad) [] = (Inr ?units, [])" for bad
    by (simp add: demo_loader_def)
  have j: "join (demo_loader bad) dir name = dir @ ''/'' @ name" for bad dir name
    by (simp add: demo_loader_def)
  have app_pre: "forEach (\<lambda>unit. loadFile (demo_loader [''/b/app.js'']) (join (demo_loader [''/b/app.js'']) (path unit) ''app.js''))
      (take 1 ?units) [] = (Inr (), [''/a/app.js''])"
    by (simp add: demo_loader_def)
  have app_thr: "loadFile (demo_loader [''/b/app.js'']) (join (demo_loader [''/b/app.js'']) (path (?units ! 1)) ''app.js'')
      [''/a/app.js''] = (Inl ''/b/app.js'', [''/a/app.js'', ''/b/app.js''])"
    by (simp add: demo_loader_def)
  have agent_pre: "forEach (\<lambda>unit. loadFile (demo_loader [''/a/agent.js'']) (join (demo_loader [''/a/agent.js'']) (path unit) ''agent.js''))
      (take 0 ?units) [] = (Inr (), [])"
    by simp
  have agent_thr: "loadFile (demo_loader [''/a/agent.js'']) (join (demo_loader [''/a/agent.js'']) (path (?units ! 0)) ''agent.js'')
      [] = (Inl ''/a/agent.js'', [''/a/agent.js''])"
    by (simp add: demo_loader_def)
  from hook_throw_aborts_load [OF u, of 1 "[''/b/app.js'']" "[''/a/app.js'']" "''/b/app.js''" "[''/a/app.js'', ''/b/app.js'']"]
    app_pre app_thr
  have "loadCustomApp (demo_loader [''/b/app.js'']) [] = (Inl ''/b/app.js'', [''/a/app.js'', ''/b/app.js'']) \<and>
    entered (log_of (loadCustomApp (traced (demo_loader [''/b/app.js''])) ([], []))) = [''/a/app.js'', ''/b/app.js'']"
    by (simp add: j)
  moreover
  from hook_throw_aborts_load [OF u, of 0 "[''/a/agent.js'']" "[]" "''/a/agent.js''" "[''/a/agent.js'']"]
    agent_pre agent_thr
  have "loadCustomAgent (demo_loader [''/a/agent.js'']) [] = (Inl ''/a/agent.js'', [''/a/agent.js'']) \<and>
    entered (log_of (loadCustomAgent (traced (demo_loader [''/a/agent.js''])) ([], []))) = [''/a/agent.js'']"
    by (simp add: j)
  ultimately show ?thesis by simp
qed

text \<open>
  Claim C9. \<open>loadCustomApp\<close> calls \<open>loadFile\<close> once for each unit it reaches, with
  \<open>path.join(unit.path, 'app.js')\<close>, and for every unit when it returns;
  \<open>loadCustomAgent\<close> does so with \<open>path.join(unit.path, 'agent.js')\<close>; and
  \<open>loadCustomAgent\<close> is \<open>loadCustomApp\<close> with the one file name replaced by the other.
\<close>

theorem hook_filenames:
  assumes units: "getLoadUnits this s = (Inr units, s0)"
  shows "(\<exists>k. k \<le> length units \<and>
            entered (log_of (loadCustomApp (traced this) (s, []))) =
              map (\<lambda>unit. join this (path unit) ''app.js'') (take k units) \<and>
            (fst (loadCustomApp this s) = Inr () \<longrightarrow> k = length units)) \<and>
         (\<exists>k. k \<le> length units \<and>
            entered (log_of (loadCustomAgent (traced this) (s, []))) =
              map (\<lambda>unit. join this (path unit) ''agent.js'') (take k units) \<and>
            (fst (loadCustomAgent this s) = Inr () \<longrightarrow> k = length units)) \<and>
         loadCustomAgent this =
           loadCustomApp (this\<lparr> join := \<lambda>dir name. join this dir (if name = ''app.js'' then ''agent.js'' else name) \<rparr>)"
proof -
  have gen: "\<exists>k. k \<le> length units \<and>
      entered (log_of (forEach (\<lambda>u. loadFile (traced this) (h u)) units (s0, []))) = map h (take k units) \<and>
      (fst (forEach (\<lambda>u. loadFile this (h u)) units s0) = Inr () \<longrightarrow> k = length units)" for h
  proof -
    from forEach_traced_log [of this h units s0 "[]"]
    consider s' where "forEach (\<lambda>u. loadFile (traced this) (h u)) units (s0, []) =
          (Inr (), (s', [] @ concat (map (\<lambda>u. returned (h u)) units)))"
      | k e s' where "k < length units" "forEach (\<lambda>u. loadFile (traced this) (h u)) units (s0, []) =
          (Inl e, (s', [] @ concat (map (\<lambda>u. returned (h u)) (take k units)) @ threw (h (units ! k))))"
      by blast
    then show ?thesis
    proof cases
      case 1
      then have "entered (log_of (forEach (\<lambda>u. loadFile (traced this) (h u)) units (s0, []))) =
          map h (take (length units) units)"
        by (simp add: log_of_def entered_returned)
      then show ?thesis by blast
    next
      case 2
      from 2(1) have tk: "map h (take k units) @ [h (units ! k)] = map h (take (Suc k) units)"
        by (simp add: take_Suc_conv_app_nth)
      from 2(2) have "entered (log_of (forEach (\<lambda>u. loadFile (traced this) (h u)) units (s0, []))) =
          map h (take (Suc k) units)"
        by (simp add: log_of_def entered_append entered_returned entered_threw tk)
      moreover from 2(2) have "fst (forEach (\<lambda>u. loadFile this (h u)) units s0) = Inl e"
        using forEach_traced_erase [of this h units s0 "[]"] by simp
      moreover from 2(1) have "Suc k \<le> length units" by simp
      ultimately show ?thesis by auto
    qed
  qed
  have same: "loadCustomAgent this =
      loadCustomApp (this\<lparr> join := \<lambda>dir name. join this dir (if name = ''app.js'' then ''agent.js'' else name) \<rparr>)"
    by (rule ext) (simp add: loadCustomApp_def loadCustomAgent_def split: prod.splits sum.splits)
  have app: "\<exists>k. k \<le> length units \<and>
      entered (log_of (loadCustomApp (traced this) (s, []))) =
        map (\<lambda>unit. join this (path unit) ''app.js'') (take k units) \<and>
      (fst (loadCustomApp this s) = Inr () \<longrightarrow> k = length units)"
    using gen [of "\<lambda>u. join this (path u) ''app.js''"]
    by (simp add: loadCustomApp_units [OF units] loadCustomApp_traced_units [OF units])
  have agent: "\<exists>k. k \<le> length units \<and>
      entered (log_of (loadCustomAgent (traced this) (s, []))) =
        map (\<lambda>unit. join this (path unit) ''agent.js'') (take k units) \<and>
      (fst (loadCustomAgent this s) = Inr () \<longrightarrow> k = length units)"
    using gen [of "\<lambda>u. join this (path u) ''agent.js''"]
    by (simp add: loadCustomAgent_units [OF units] loadCustomAgent_traced_units [OF units])
  show ?thesis
    by (rule conjI [OF app conjI [OF agent same]])
qed

theorem hook_filenames_witness:
  "getLoadUnits (demo_loader []) [] = (Inr [\<lparr> path = ''/a'' \<rparr>, \<lparr> path = ''/b'' \<rparr>, \<lparr> path = ''/c'' \<rparr>], []) \<and>
   fst (loadCustomApp (demo_loader []) []) = Inr () \<and>
   entered (log_of (loadCustomApp (traced (demo_loader [])) ([], []))) = [''/a/app.js'', ''/b/app.js'', ''/c/app.js''] \<and>
   fst (loadCustomAgent (demo_loader []) []) = Inr () \<and>
   entered (log_of (loadCustomAgent (traced (demo_loader [])) ([], []))) = [''/a/agent.js'', ''/b/agent.js'', ''/c/agent.js'']"
proof -
  let ?units = "[\<lparr> path = ''/a'' \<rparr>, \<lparr> path = ''/b'' \<rparr>, \<lparr> path = ''/c'' \<rparr>]"
  have u: "getLoadUnits (demo_loader []) [] = (Inr ?units, [])"
    by (simp add: demo_loader_def)
  have j: "join (demo_loader []) dir name = dir @ ''/'' @ name" for dir name
    by (simp add: demo_loader_def)
  have a: "fst (loadCustomApp (demo_loader []) []) = Inr ()"
    by (simp add: loadCustomApp_def demo_loader_def)
  have b: "fst (loadCustomAgent (demo_loader []) []) = Inr ()"
    by (simp add: loadCustomAgent_def demo_loader_def)
  from hook_filenames [OF u] a b show ?thesis
    using u by (auto simp: j)
qed

section \<open>The constructor\<close>

text \<open>What \<open>_initReady\<close> leaves of an instance, and what a construction that returned has made.\<close>

lemma initReady_fields:
  "listeners (initReady this) = listeners this @
     [(''ready_stat'', ready_stat_listener), (''ready_timeout'', ready_timeout_listener)]"
  "readiness (initReady this) = Some (ready_callback \<lparr> timeout = Some 10000 \<rparr>)"
  "console (initReady this) = console this"
  "self (initReady this) = self this"
  "priv_options (initReady this) = priv_options this"
  "LOGGERS (initReady this) = LOGGERS this"
  by (simp_all add: initReady_def mixin_def on_def Let_def)

lemma constructor_Inr:
  assumes "constructor env arg proc = (Inr this, proc')"
  shows "listeners this =
     [(''ready_stat'', ready_stat_listener), (''ready_timeout'', ready_timeout_listener)]"
    and "readiness this = Some (ready_callback \<lparr> timeout = Some 10000 \<rparr>)"
    and "console this = []"
    and "LOGGERS this = None"
    and "self this = allocated proc"
    and "priv_unhandledRejectionHandler this = Some (Bound (allocated proc))"
    and "proc' = process_on ''unhandledRejection'' (Bound (allocated proc)) (proc\<lparr> allocated := Suc (allocated proc) \<rparr>)"
  using assms
  by (auto simp: constructor_def Let_def initReady_fields split: if_splits sum.splits)






lemma srv_builds: "\<exists>this proc'. constructor plain_loader (Some app_options) srv = (Inr this, proc')"
  by (simp add: constructor_def srv_def plain_loader_def app_options_def Let_def existsSync_def statSync_def
      isDirectory_def)






section \<open>The handler of unhandled rejections\<close>

lemma constructor_listeners:
  "constructor env arg proc = (r, proc') \<Longrightarrow>
   process_listeners proc' = process_listeners proc @ map (\<lambda>this. (''unhandledRejection'', Bound (self this))) (built [r]) \<and>
   (\<forall>this \<in> set (built [r]). priv_unhandledRejectionHandler this = Some (Bound (self this)) \<and> self this = allocated proc) \<and>
   allocated proc \<le> allocated proc' \<and> (built [r] \<noteq> [] \<longrightarrow> allocated proc < allocated proc')"
proof (cases r)
  case (Inl e)
  assume c: "constructor env arg proc = (r, proc')"
  have "process_listeners proc' = process_listeners proc \<and> allocated proc \<le> allocated proc'"
    using c Inl
    by (auto simp: constructor_def Let_def split: if_splits sum.splits)
  with Inl show ?thesis by simp
next
  case (Inr this)
  assume c: "constructor env arg proc = (r, proc')"
  with Inr have c': "constructor env arg proc = (Inr this, proc')" by simp
  show ?thesis
    using Inr constructor_Inr(5,6,7) [OF c']
    by (simp add: process_on_def)
qed

lemma construct_all_listeners:
  "construct_all env args proc = (rs, proc') \<Longrightarrow>
   process_listeners proc' = process_listeners proc @ map (\<lambda>this. (''unhandledRejection'', Bound (self this))) (built rs) \<and>
   (\<forall>this \<in> set (built rs). priv_unhandledRejectionHandler this = Some (Bound (self this)) \<and>
       allocated proc \<le> self this \<and> self this < allocated proc') \<and>
   allocated proc \<le> allocated proc' \<and>
   distinct (map self (built rs))"
proof (induction args arbitrary: proc rs proc')
  case Nil
  then show ?case by simp
next
  case (Cons arg args)
  obtain r p1 where first: "constructor env arg proc = (r, p1)"
    by (cases "constructor env arg proc")
  obtain rs' p2 where rest: "construct_all env args p1 = (rs', p2)"
    by (cases "construct_all env args p1")
  from Cons.prems first rest have eq: "rs = r # rs'" "proc' = p2" by simp_all
  note one = constructor_listeners [OF first]
  note ih = Cons.IH [OF rest]
  show ?case
  proof (cases r)
    case (Inl e)
    with one ih eq show ?thesis by auto
  next
    case (Inr this)
    with one ih eq show ?thesis by fastforce
  qed
qed

text \<open>
  Claim C6. As stated the claim fails: the class has no teardown and nothing in it removes
  a listener from the process, so two instances leave two handlers installed. Amended:
  after any number of constructions in a process, the listeners of the process are those
  it had, followed by one \<open>unhandledRejection\<close> handler for each instance that was built,
  in the order they were built; the handler of an instance is the bound function the
  instance keeps in \<open>_unhandledRejectionHandler\<close>, and the handlers of different
  instances are different functions. A construction that throws installs none.
\<close>

theorem one_handler_per_instance_none_removed:
  assumes "construct_all env args proc = (rs, proc')"
  shows "process_listeners proc' =
           process_listeners proc @ map (\<lambda>this. (''unhandledRejection'', Bound (self this))) (built rs) \<and>
         (\<forall>this \<in> set (built rs). priv_unhandledRejectionHandler this = Some (Bound (self this))) \<and>
         distinct (map self (built rs))"
  using construct_all_listeners [OF assms] by blast

theorem handlers_accumulate_counterexample:
  "installed ''unhandledRejection'' (snd (construct_all plain_loader [Some app_options, Some app_options] srv)) =
     [Bound 0, Bound 1]"
  by (simp add: installed_def constructor_def srv_def plain_loader_def app_options_def Let_def existsSync_def
      statSync_def isDirectory_def initReady_def mixin_def on_def process_on_def)

theorem one_handler_per_instance_none_removed_witness:
  "\<exists>rs proc'. construct_all plain_loader [Some app_options, None, Some app_options] srv = (rs, proc') \<and>
     map self (built rs) = [0, 1] \<and>
     process_listeners proc' = [(''unhandledRejection'', Bound 0), (''unhandledRejection'', Bound 1)]"
proof -
  obtain rs proc' where run: "construct_all plain_loader [Some app_options, None, Some app_options] srv = (rs, proc')"
    by (cases "construct_all plain_loader [Some app_options, None, Some app_options] srv")
  have selfs: "map self (built (fst (construct_all plain_loader [Some app_options, None, Some app_options] srv))) = [0, 1]"
    by (simp add: constructor_def srv_def plain_loader_def app_options_def empty_object_def Let_def existsSync_def
      statSync_def isDirectory_def initReady_def mixin_def on_def process_on_def)
  from one_handler_per_instance_none_removed [OF run] selfs run
  have "map self (built rs) = [0, 1] \<and>
     process_listeners proc' = [(''unhandledRejection'', Bound 0), (''unhandledRejection'', Bound 1)]"
    by (auto simp: srv_def)
  with run show ?thesis by simp
qed





section \<open>The readiness events\<close>

text \<open>
  Claim C8. An instance that was built listens to \<open>ready_stat\<close> and to \<open>ready_timeout\<close>.
  When \<open>ready_stat\<close> is emitted with \<open>{ id, remain }\<close>, the listeners return and the
  console logger has one more entry: at level info, with the completed id and the
  remaining ids as arguments. When \<open>ready_timeout\<close> is emitted with an id, they return
  and it has one more entry: at level warn, with the id as argument, in a message that
  reads \<open>10 seconds\<close>, which is the delay the barrier was configured with, 10 000
  milliseconds. Nothing else of the instance changes.
\<close>

theorem readiness_events_are_logged:
  assumes built: "constructor env arg proc = (Inr this, proc')"
  shows "map fst (listeners this) = [''ready_stat'', ''ready_timeout''] \<and>
         emit ''ready_stat'' (VStat i remain) (this\<lparr> console := c \<rparr>) =
           (Inr (), this\<lparr> console :=
              c @ [(INFO, ''[egg:core:ready_stat] end ready task %s, remain %j'', [VStr i, VList remain])] \<rparr>) \<and>
         emit ''ready_timeout'' (VStr i) (this\<lparr> console := c \<rparr>) =
           (Inr (), this\<lparr> console :=
              c @ [(WARN, ''[egg:core:ready_timeout] 10 seconds later %s was still unable to finish.'', [VStr i])] \<rparr>) \<and>
         map_option configured (readiness this) = Some (10 * 1000)"
  by (simp add: constructor_Inr [OF built] emit_def info_def warn_def ready_callback_def
      ready_stat_listener_def ready_timeout_listener_def)

theorem readiness_events_are_logged_witness:
  "\<exists>this proc'. constructor plain_loader (Some app_options) srv = (Inr this, proc') \<and>
     map fst (listeners this) = [''ready_stat'', ''ready_timeout''] \<and>
     emit ''ready_stat'' (VStat ''db'' [''cache'']) this =
       (Inr (), this\<lparr> console :=
          [(INFO, ''[egg:core:ready_stat] end ready task %s, remain %j'', [VStr ''db'', VList [''cache'']])] \<rparr>) \<and>
     emit ''ready_timeout'' (VStr ''db'') this =
       (Inr (), this\<lparr> console :=
          [(WARN, ''[egg:core:ready_timeout] 10 seconds later %s was still unable to finish.'', [VStr ''db''])] \<rparr>)"
proof -
  from srv_builds obtain this proc' where built: "constructor plain_loader (Some app_options) srv = (Inr this, proc')"
    by blast
  from constructor_Inr(3) [OF built] have same: "this\<lparr> console := [] \<rparr> = this" by simp
  from readiness_events_are_logged [OF built, of "''db''" "[''cache'']" "[]"]
  have "map fst (listeners this) = [''ready_stat'', ''ready_timeout''] \<and>
     emit ''ready_stat'' (VStat ''db'' [''cache'']) this =
       (Inr (), this\<lparr> console :=
          [(INFO, ''[egg:core:ready_stat] end ready task %s, remain %j'', [VStr ''db'', VList [''cache'']])] \<rparr>) \<and>
     emit ''ready_timeout'' (VStr ''db'') this =
       (Inr (), this\<lparr> console :=
          [(WARN, ''[egg:core:ready_timeout] 10 seconds later %s was still unable to finish.'', [VStr ''db''])] \<rparr>)"
    by (simp add: same)
  with built show ?thesis by simp
qed

text \<open>
  The listener of \<open>ready_stat\<close> reads \<open>data.id\<close> and \<open>data.remain\<close>: emitted with no
  argument, it throws, the listeners after it are not called, and nothing is logged.
\<close>

lemma ready_stat_without_data_throws:
  assumes built: "constructor env arg proc = (Inr this, proc')"
  shows "emit ''ready_stat'' VUndefined this = (Inl (TypeError ''Cannot read properties of undefined''), this)"
  by (simp add: constructor_Inr [OF built] emit_def ready_stat_listener_def)

section \<open>The readiness barrier\<close>

lemma step_ready:
  assumes "step i b = (b', out)"
  shows "count_list out Ready \<le> (if state b = READY then 0 else 1) \<and>
         (state b = READY \<longrightarrow> state b' = READY) \<and>
         (count_list out Ready = 1 \<longrightarrow> state b' = READY)"
proof (cases i)
  case (Register given)
  with assms show ?thesis
    by (auto simp: register_def Let_def split: sum.splits if_splits)
next
  case (Complete token)
  with assms show ?thesis
    by (auto simp: complete_def Let_def split: if_splits)
next
  case (Advance dt)
  with assms have out: "out = map (\<lambda>w. Timeout (watched w)) (filter (due (now b + dt)) (watchdogs b))"
    and st: "state b' = state b"
    by (auto simp: advance_def Let_def)
  have "count_list (map (\<lambda>w. Timeout (watched w)) ws) Ready = 0" for ws :: "watchdog list"
    by (induction ws) auto
  with out st show ?thesis by simp
next
  case StartLoading
  with assms show ?thesis
    by (auto simp: start_loading_def split: if_splits)
next
  case FinishLoading
  with assms show ?thesis
    by (auto simp: finish_loading_def split: if_splits)
qed

lemma run_ready: "count_list (snd (run ins b)) Ready \<le> (if state b = READY then 0 else 1)"
proof (induction ins arbitrary: b)
  case Nil
  then show ?case by simp
next
  case (Cons i ins)
  obtain b' out where s: "step i b = (b', out)" by (cases "step i b")
  obtain b'' out' where r: "run ins b' = (b'', out')" by (cases "run ins b'")
  from Cons.IH [of b'] r have ih: "count_list out' Ready \<le> (if state b' = READY then 0 else 1)" by simp
  from step_ready [OF s] ih have "count_list out Ready + count_list out' Ready \<le> (if state b = READY then 0 else 1)"
    by (auto split: if_splits)
  with s r show ?case by simp
qed

lemma complete_configured: "configured (fst (complete token b)) = configured b"
  by (simp add: complete_def Let_def)

lemma complete_wellformed:
  assumes wf: "wellformed b"
  shows "wellformed (fst (complete token b))"
proof -
  let ?rest = "filter (\<lambda>t. task_id t \<noteq> token) (pending b)"
  let ?dogs = "filter (\<lambda>w. watched w \<noteq> token) (watchdogs b)"
  have keep: "watched w \<in> task_id ` set ?rest" if "w \<in> set ?dogs" for w
  proof -
    from that have w: "w \<in> set (watchdogs b)" "watched w \<noteq> token" by simp_all
    with wf obtain t where "t \<in> set (pending b)" "task_id t = watched w"
      by (auto simp: wellformed_def status_def)
    with w(2) have "t \<in> set ?rest" "task_id t = watched w" by simp_all
    then show ?thesis by (metis imageI)
  qed
  then have a: "wellformed (b\<lparr> pending := ?rest, watchdogs := ?dogs \<rparr>)"
    unfolding wellformed_def status_def by simp
  then have b: "wellformed (b\<lparr> pending := ?rest, watchdogs := ?dogs, state := READY \<rparr>)"
    unfolding wellformed_def status_def by simp
  show ?thesis
  proof (cases "token \<in> status b")
    case False
    with wf show ?thesis by (simp add: complete_def)
  next
    case True
    show ?thesis
    proof (cases "?rest = [] \<and> state b = WAITING")
      case True
      with \<open>token \<in> status b\<close> have "fst (complete token b) = b\<lparr> pending := ?rest, watchdogs := ?dogs, state := READY \<rparr>"
        by (simp add: complete_def Let_def)
      with b show ?thesis by simp
    next
      case False
      with \<open>token \<in> status b\<close> have "fst (complete token b) = b\<lparr> pending := ?rest, watchdogs := ?dogs \<rparr>"
        by (auto simp: complete_def Let_def)
      with a show ?thesis by simp
    qed
  qed
qed

lemma mark_ids: "map task_id (map (\<lambda>k. if P k then k\<lparr> timedOut := True \<rparr> else k) ps) = map task_id ps"
  by (induction ps) simp_all

lemma advance_status: "status (fst (advance dt b)) = status b"
  by (simp add: advance_def Let_def status_def mark_ids del: map_map)

lemma advance_wellformed:
  assumes wf: "wellformed b"
  shows "wellformed (fst (advance dt b)) \<and> configured (fst (advance dt b)) = configured b"
proof -
  have dogs: "set (watchdogs (fst (advance dt b))) \<subseteq> set (watchdogs b)"
    by (auto simp: advance_def Let_def)
  have "wellformed (fst (advance dt b))"
    unfolding wellformed_def advance_status using wf dogs by (auto simp: wellformed_def)
  moreover have "configured (fst (advance dt b)) = configured b"
    by (simp add: advance_def Let_def)
  ultimately show ?thesis by simp
qed

lemma step_wellformed:
  assumes "step i b = (b', out)" and "wellformed b"
  shows "wellformed b' \<and> configured b' = configured b"
proof (cases i)
  case (Register given)
  with assms show ?thesis
    by (auto simp: register_def Let_def wellformed_def status_def split: sum.splits if_splits)
next
  case (Complete token)
  with assms complete_wellformed [of b token] complete_configured [of token b] show ?thesis
    by auto
next
  case (Advance dt)
  with assms advance_wellformed [of b dt] show ?thesis
    by auto
next
  case StartLoading
  with assms show ?thesis
    by (auto simp: start_loading_def wellformed_def status_def split: if_splits)
next
  case FinishLoading
  with assms show ?thesis
    by (auto simp: finish_loading_def wellformed_def status_def split: if_splits)
qed

lemma run_wellformed:
  "run ins b = (b', out) \<Longrightarrow> wellformed b \<Longrightarrow> wellformed b' \<and> configured b' = configured b"
proof (induction ins arbitrary: b b' out)
  case Nil
  then show ?case by simp
next
  case (Cons i ins)
  obtain b1 out1 where s: "step i b = (b1, out1)" by (cases "step i b")
  obtain b2 out2 where r: "run ins b1 = (b2, out2)" by (cases "run ins b1")
  from Cons.prems(1) s r have "b' = b2" by simp
  with step_wellformed [OF s Cons.prems(2)] Cons.IH [OF r] show ?case by simp
qed

lemma wellformed_ready_callback: "wellformed (ready_callback opt)"
  by (simp add: wellformed_def ready_callback_def)

lemma register_watchdog:
  assumes "register given b = Inr (i, b')" and "wellformed b"
  shows "filter (\<lambda>w. watched w = i) (watchdogs b') = [\<lparr> watched = i, started = now b, delay = configured b \<rparr>]"
    and "i \<in> set (registered b')"
proof -
  from assms(1) have fresh: "i \<notin> status b"
    and b': "b' = b\<lparr> pending := pending b @ [\<lparr> task_id = i, registeredAt = now b, timedOut = False \<rparr>],
                         watchdogs := watchdogs b @ [\<lparr> watched = i, started = now b, delay = configured b \<rparr>],
                         registered := i # registered b \<rparr>"
    by (auto simp: register_def Let_def split: if_splits)
  from fresh assms(2) have "\<forall>w \<in> set (watchdogs b). watched w \<noteq> i"
    by (auto simp: wellformed_def)
  then have "filter (\<lambda>w. watched w = i) (watchdogs b) = []"
    by (simp add: filter_empty_conv)
  with b' show "filter (\<lambda>w. watched w = i) (watchdogs b') = [\<lparr> watched = i, started = now b, delay = configured b \<rparr>]"
    by simp
  from b' show "i \<in> set (registered b')" by simp
qed

lemma length_fresh_id: "\<forall>i \<in> set ids. length i < length (fresh_id ids)"
  by (induction ids) (auto simp: fresh_id_def)

lemma fresh_id_new: "fresh_id ids \<notin> set ids"
  using length_fresh_id [of ids] by auto

text \<open>The timeouts emitted for \<open>i\<close> and the watchdogs left for \<open>i\<close> never outnumber the watchdogs there were.\<close>

lemma count_timeouts: "count_list (map (\<lambda>w. Timeout (watched w)) ws) (Timeout i) = length (filter (\<lambda>w. watched w = i) ws)"
  by (induction ws) auto

lemma filter_split_length: "length (filter P (filter Q ws)) + length (filter P (filter (\<lambda>w. \<not> Q w) ws)) = length (filter P ws)"
  by (induction ws) auto

lemma filter_filter_length: "length (filter P (filter Q ws)) \<le> length (filter P ws)"
  by (induction ws) auto

lemma step_timeouts:
  assumes "step inp b = (b', out)" and "i \<in> set (registered b)" and "inp \<noteq> Register (Some i)"
  shows "count_list out (Timeout i) + length (filter (\<lambda>w. watched w = i) (watchdogs b')) \<le>
           length (filter (\<lambda>w. watched w = i) (watchdogs b)) \<and> i \<in> set (registered b')"
proof (cases inp)
  case (Register given)
  show ?thesis
  proof (cases "register given b")
    case (Inl e)
    with Register assms show ?thesis by simp
  next
    case (Inr pair)
    obtain j b1 where pair: "pair = (j, b1)" by (cases pair)
    with Inr Register assms(1) have b': "b' = b1" "out = []" by simp_all
    from Inr pair have j: "j = (case given of None \<Rightarrow> fresh_id (registered b) | Some k \<Rightarrow> k)"
      and b1: "b1 = b\<lparr> pending := pending b @ [\<lparr> task_id = j, registeredAt = now b, timedOut = False \<rparr>],
                         watchdogs := watchdogs b @ [\<lparr> watched = j, started = now b, delay = configured b \<rparr>],
                         registered := j # registered b \<rparr>"
      by (auto simp: register_def Let_def split: if_splits)
    have "j \<noteq> i"
    proof (cases given)
      case None
      with j assms(2) fresh_id_new [of "registered b"] show ?thesis by auto
    next
      case (Some k)
      with j Register assms(3) show ?thesis by simp
    qed
    with b' b1 assms(2) show ?thesis by simp
  qed
next
  case (Complete token)
  have "length (filter (\<lambda>w. watched w = i) (filter (\<lambda>w. watched w \<noteq> token) (watchdogs b))) \<le>
      length (filter (\<lambda>w. watched w = i) (watchdogs b))"
    by (rule filter_filter_length)
  with Complete assms show ?thesis
    by (auto simp: complete_def Let_def split: if_splits)
next
  case (Advance dt)
  with assms show ?thesis
    using filter_split_length [of "\<lambda>w. watched w = i" "due (now b + dt)" "watchdogs b"]
    by (auto simp: advance_def Let_def count_timeouts)
next
  case StartLoading
  with assms show ?thesis
    by (auto simp: start_loading_def split: if_splits)
next
  case FinishLoading
  with assms show ?thesis
    by (auto simp: finish_loading_def split: if_splits)
qed

lemma run_timeouts:
  "i \<in> set (registered b) \<Longrightarrow> Register (Some i) \<notin> set ins \<Longrightarrow>
   count_list (snd (run ins b)) (Timeout i) + length (filter (\<lambda>w. watched w = i) (watchdogs (fst (run ins b)))) \<le>
     length (filter (\<lambda>w. watched w = i) (watchdogs b))"
proof (induction ins arbitrary: b)
  case Nil
  then show ?case by simp
next
  case (Cons inp ins)
  obtain b1 out1 where s: "step inp b = (b1, out1)" by (cases "step inp b")
  obtain b2 out2 where r: "run ins b1 = (b2, out2)" by (cases "run ins b1")
  from Cons.prems have ne: "inp \<noteq> Register (Some i)" and rest: "Register (Some i) \<notin> set ins" by auto
  from step_timeouts [OF s Cons.prems(1) ne]
  have one: "count_list out1 (Timeout i) + length (filter (\<lambda>w. watched w = i) (watchdogs b1)) \<le>
           length (filter (\<lambda>w. watched w = i) (watchdogs b))" and reg: "i \<in> set (registered b1)"
    by simp_all
  from Cons.IH [OF reg rest] r
  have "count_list out2 (Timeout i) + length (filter (\<lambda>w. watched w = i) (watchdogs b2)) \<le>
     length (filter (\<lambda>w. watched w = i) (watchdogs b1))"
    by simp
  with one s r show ?case by simp
qed

text \<open>
  Claim C3. The barrier of an instance that was built emits \<open>ready\<close> at most once over
  any sequence of registrations, completions, watchdog expiries and loading steps.
\<close>

theorem ready_at_most_once:
  assumes built: "constructor env arg proc = (Inr this, proc')"
  shows "\<exists>b. readiness this = Some b \<and> (\<forall>ins. count_list (snd (run ins b)) Ready \<le> 1)"
proof -
  have "count_list (snd (run ins (ready_callback \<lparr> timeout = Some 10000 \<rparr>))) Ready \<le> 1" for ins
    using run_ready [of ins "ready_callback \<lparr> timeout = Some 10000 \<rparr>"] by (simp split: if_splits)
  with constructor_Inr(2) [OF built] show ?thesis by simp
qed

theorem ready_at_most_once_witness:
  "\<exists>this proc' b. constructor plain_loader (Some app_options) srv = (Inr this, proc') \<and>
     readiness this = Some b \<and>
     snd (run [StartLoading, Register (Some ''db''), FinishLoading, Complete ''db'', Register (Some ''late''),
               Complete ''db'', Complete ''late''] b) =
       [Task_done ''db'' [], Ready, Task_done ''late'' []] \<and>
     count_list (snd (run [StartLoading, Register (Some ''db''), FinishLoading, Complete ''db'', Register (Some ''late''),
               Complete ''db'', Complete ''late''] b)) Ready \<le> 1"
proof -
  from srv_builds obtain this proc' where built: "constructor plain_loader (Some app_options) srv = (Inr this, proc')"
    by blast
  from ready_at_most_once [OF built] obtain b where b: "readiness this = Some b"
    and once: "\<forall>ins. count_list (snd (run ins b)) Ready \<le> 1"
    by blast
  from b constructor_Inr(2) [OF built] have b0: "b = ready_callback \<lparr> timeout = Some 10000 \<rparr>" by simp
  have "snd (run [StartLoading, Register (Some ''db''), FinishLoading, Complete ''db'', Register (Some ''late''),
               Complete ''db'', Complete ''late''] b) =
       [Task_done ''db'' [], Ready, Task_done ''late'' []]"
    unfolding b0
    by (simp add: ready_callback_def start_loading_def finish_loading_def register_def complete_def status_def
        remaining_def Let_def)
  with built b once show ?thesis by blast
qed

text \<open>
  Claim C4. Let a task be registered on the barrier of an instance, in any state the
  barrier can reach. Then exactly one watchdog runs for the task, started at the
  registration with a delay of 10 000, the value \<open>_initReady\<close> configures; and as long as
  the id is not registered anew, \<open>timeout\<close> is emitted for it at most once.
\<close>

theorem every_task_gets_a_watchdog:
  assumes built: "constructor env arg proc = (Inr this, proc')"
    and b0: "readiness this = Some b0"
    and reached: "run ins b0 = (b, out)"
    and reg: "register given b = Inr (i, b')"
  shows "filter (\<lambda>w. watched w = i) (watchdogs b') = [\<lparr> watched = i, started = now b, delay = 10000 \<rparr>] \<and>
         (Register (Some i) \<notin> set later \<longrightarrow> count_list (snd (run later b')) (Timeout i) \<le> 1)"
proof -
  from b0 constructor_Inr(2) [OF built] have init: "b0 = ready_callback \<lparr> timeout = Some 10000 \<rparr>" by simp
  then have "wellformed b0" "configured b0 = 10000"
    by (simp_all add: wellformed_ready_callback) (simp add: ready_callback_def)
  with run_wellformed [OF reached] have wf: "wellformed b" and conf: "configured b = 10000" by simp_all
  from register_watchdog [OF reg wf] conf
  have one: "filter (\<lambda>w. watched w = i) (watchdogs b') = [\<lparr> watched = i, started = now b, delay = 10000 \<rparr>]"
    and known: "i \<in> set (registered b')"
    by simp_all
  have "count_list (snd (run later b')) (Timeout i) \<le> 1" if "Register (Some i) \<notin> set later"
    using run_timeouts [OF known that] one by simp
  with one show ?thesis by simp
qed

theorem every_task_gets_a_watchdog_witness:
  "\<exists>this proc' b0 b out b'.
     constructor plain_loader (Some app_options) srv = (Inr this, proc') \<and>
     readiness this = Some b0 \<and>
     run [Register (Some ''db''), Advance 5] b0 = (b, out) \<and>
     register None b = Inr (''###'', b') \<and>
     filter (\<lambda>w. watched w = ''###'') (watchdogs b') = [\<lparr> watched = ''###'', started = 5, delay = 10000 \<rparr>] \<and>
     snd (run [Advance 9999, Advance 1, Advance 10000] b') = [Timeout ''db'', Timeout ''###''] \<and>
     count_list (snd (run [Advance 9999, Advance 1, Advance 10000] b')) (Timeout ''###'') \<le> 1"
proof -
  from srv_builds obtain this proc' where built: "constructor plain_loader (Some app_options) srv = (Inr this, proc')"
    by blast
  define b0 where "b0 = ready_callback \<lparr> timeout = Some 10000 \<rparr>"
  define b where "b = \<lparr> configured = 10000, pending = [\<lparr> task_id = ''db'', registeredAt = 0, timedOut = False \<rparr>],
      watchdogs = [\<lparr> watched = ''db'', started = 0, delay = 10000 \<rparr>], now = 5, registered = [''db''], state = INIT \<rparr>"
  define b' where "b' = b\<lparr> pending := pending b @ [\<lparr> task_id = ''###'', registeredAt = 5, timedOut = False \<rparr>],
      watchdogs := watchdogs b @ [\<lparr> watched = ''###'', started = 5, delay = 10000 \<rparr>],
      registered := ''###'' # registered b \<rparr>"
  have rd: "readiness this = Some b0"
    using constructor_Inr(2) [OF built] by (simp add: b0_def)
  have reached: "run [Register (Some ''db''), Advance 5] b0 = (b, [])"
    by (auto simp: b0_def b_def ready_callback_def register_def advance_def status_def due_def Let_def)
  have reg: "register None b = Inr (''###'', b')"
    by (simp add: b_def b'_def register_def fresh_id_def status_def Let_def)
  have later: "snd (run [Advance 9999, Advance 1, Advance 10000] b') = [Timeout ''db'', Timeout ''###'']"
    by (auto simp: b_def b'_def advance_def due_def Let_def)
  have "Register (Some ''###'') \<notin> set [Advance 9999, Advance 1, Advance 10000]" by simp
  with every_task_gets_a_watchdog [OF built rd reached reg, of "[Advance 9999, Advance 1, Advance 10000]"]
  have "filter (\<lambda>w. watched w = ''###'') (watchdogs b') = [\<lparr> watched = ''###'', started = now b, delay = 10000 \<rparr>] \<and>
     count_list (snd (run [Advance 9999, Advance 1, Advance 10000] b')) (Timeout ''###'') \<le> 1"
    by blast
  moreover have "now b = 5" by (simp add: b_def)
  ultimately show ?thesis using built rd reached reg later by auto
qed

end
